theory Spec2Isabelle
  imports Main "HOL-Library.Word"
begin

section \<open>emCircularBuffer: the ring slot allocator\<close>

text \<open>
  A shallow embedding of \<^verbatim>\<open>emCircularBuffer.c\<close> with its two headers
  \<^verbatim>\<open>emCircularBuffer.h\<close> and \<^verbatim>\<open>emCircularPort.h\<close>.

  \<^item> \<^verbatim>\<open>size_t\<close> is a 32-bit word (the port header's example target is CMSIS-RTOS2);
    \<open>+\<close>, \<open>-\<close> and \<open>*\<close> wrap, \<open>mod\<close> is the unsigned remainder.
  \<^item> A data pointer (\<^verbatim>\<open>void *\<close>, \<^verbatim>\<open>unsigned char *\<close>) is its address, a word of the same
    width; \<open>NULL\<close> is address 0 and pointer arithmetic is address arithmetic.
  \<^item> A buffer handle \<^verbatim>\<open>CBuffer_t *\<close> is \<open>CBuffer_t option\<close>: \<open>None\<close> is the null
    handle, \<open>Some b\<close> a handle to a structure whose fields are \<open>b\<close>. A function that
    writes through the handle returns the updated handle.
  \<^item> Reading a field through a null handle and a remainder by zero are undefined in C;
    the model makes them the error values below.
  \<^item> \<^verbatim>\<open>emCircularDelete\<close> and the debug printing (\<^verbatim>\<open>CB_DEBUG\<close>) are left out: no
    statement below concerns them, and printing changes no result.
\<close>

type_synonym size_t = "32 word"
type_synonym ptr = "32 word"
type_synonym CB_sem_t = "32 word"

abbreviation (input) NULL :: "32 word" where
  "NULL \<equiv> 0"

datatype error = NullDereference | DivisionByZero

datatype CBStatus_t = CB_error | CB_true | CB_false

record CBuffer_t =
  tailInd :: size_t
  headInd :: size_t
  startBuffer :: ptr
  elemSize :: size_t
  maxElems :: size_t
  NbElems :: size_t
  sem :: CB_sem_t

subsection \<open>The port: emCircularPort.h\<close>

text \<open>
  The port header selects the collaborators at compile time. What the core cannot
  decide itself is a field of \<open>port\<close>:
  \<^item> \<open>CIRCULAR_USE_LOCK_MECHANISM\<close>: the compile-time switch (0 in the repository);
  \<^item> \<open>malloc_CBuffer\<close>: what \<^verbatim>\<open>emCircularPortMalloc(sizeof(CBuffer_t))\<close> returns;
  \<^item> \<open>malloc_storage\<close>: what \<^verbatim>\<open>emCircularPortMalloc(bytes)\<close> returns for the data area,
    given the requested byte count;
  \<^item> \<open>osSemaphoreNew\<close>: the handle \<^verbatim>\<open>osSemaphoreNew(1, 1, NULL)\<close> returns;
  \<^item> \<open>osSemaphoreAcquire\<close>: the status \<^verbatim>\<open>osSemaphoreAcquire(ptrSem, osWaitForever)\<close>
    returns, 0 on success.
\<close>

record port =
  CIRCULAR_USE_LOCK_MECHANISM :: bool
  malloc_CBuffer :: ptr
  malloc_storage :: "size_t \<Rightarrow> ptr"
  osSemaphoreNew :: CB_sem_t
  osSemaphoreAcquire :: "CB_sem_t \<Rightarrow> int"

definition emCircularPort_EnterCritical :: "port \<Rightarrow> CB_sem_t \<Rightarrow> int" where
  "emCircularPort_EnterCritical p ptrSem =
     (if CIRCULAR_USE_LOCK_MECHANISM p then osSemaphoreAcquire p ptrSem else 0)"

definition emCircularPort_InitBynSem :: "port \<Rightarrow> string option \<Rightarrow> CB_sem_t" where
  "emCircularPort_InitBynSem p strName =
     (if CIRCULAR_USE_LOCK_MECHANISM p then osSemaphoreNew p else NULL)"

subsection \<open>The public functions: emCircularBuffer.c\<close>

text \<open>
  \<^verbatim>\<open>emCircularInit\<close>. Neither result of \<^verbatim>\<open>emCircularPortMalloc\<close> is tested: the fields
  are written through \<open>retval\<close> at once (a null dereference when the first allocation
  failed), and the data pointer is stored as it came.
\<close>

definition emCircularInit ::
  "port \<Rightarrow> size_t \<Rightarrow> size_t \<Rightarrow> string option \<Rightarrow> error + CBuffer_t option" where
  "emCircularInit p maxElems' elemSize' sem_name =
     (if maxElems' < 2 then Inr None
      else if elemSize' < 1 then Inr None
      else
        let retval = malloc_CBuffer p;
            buffer = malloc_storage p (maxElems' * elemSize')
        in if retval = NULL then Inl NullDereference
           else
             let b = \<lparr>tailInd = 0, headInd = 0, startBuffer = buffer,
                      elemSize = elemSize', maxElems = maxElems', NbElems = 0,
                      sem = emCircularPort_InitBynSem p sem_name\<rparr>
             in if CIRCULAR_USE_LOCK_MECHANISM p \<and> sem b = NULL then Inr None
                else Inr (Some b))"

text \<open>
  \<^verbatim>\<open>emCircularIsEmpty\<close> and \<^verbatim>\<open>emCircularIsFull\<close> read \<^verbatim>\<open>buffer->sem\<close> before (and after)
  their test \<^verbatim>\<open>buffer == NULL\<close>, so a null handle is a null dereference.
\<close>

definition emCircularIsEmpty :: "port \<Rightarrow> CBuffer_t option \<Rightarrow> error + CBStatus_t" where
  "emCircularIsEmpty p buffer =
     (case buffer of
        None \<Rightarrow> Inl NullDereference
      | Some b \<Rightarrow>
          if emCircularPort_EnterCritical p (sem b) \<noteq> 0 then Inr CB_error
          else if headInd b = tailInd b then Inr CB_true
          else Inr CB_false)"

definition emCircularIsFull :: "port \<Rightarrow> CBuffer_t option \<Rightarrow> error + CBStatus_t" where
  "emCircularIsFull p buffer =
     (case buffer of
        None \<Rightarrow> Inl NullDereference
      | Some b \<Rightarrow>
          if emCircularPort_EnterCritical p (sem b) \<noteq> 0 then Inr CB_error
          else if maxElems b = 0 then Inl DivisionByZero
          else if (headInd b + 1) mod maxElems b = tailInd b then Inr CB_true
          else Inr CB_false)"

definition emCircularGetRemainingSpace :: "port \<Rightarrow> CBuffer_t option \<Rightarrow> size_t" where
  "emCircularGetRemainingSpace p buffer =
     (case buffer of
        None \<Rightarrow> 0
      | Some b \<Rightarrow>
          if emCircularPort_EnterCritical p (sem b) \<noteq> 0 then 0
          else if maxElems b \<ge> NbElems b then maxElems b - NbElems b
          else 0)"

text \<open>
  \<^verbatim>\<open>emCircularGetHead\<close>. The \<^verbatim>\<open>default:\<close> branch of the switch has no counterpart:
  \<open>CBStatus_t\<close> has the three values of the enumeration and no other.
\<close>

definition emCircularGetHead ::
  "port \<Rightarrow> CBuffer_t option \<Rightarrow> error + (ptr \<times> CBuffer_t option)" where
  "emCircularGetHead p buffer =
     (case buffer of
        None \<Rightarrow> Inr (NULL, None)
      | Some b \<Rightarrow>
          (case emCircularIsFull p buffer of
             Inl e \<Rightarrow> Inl e
           | Inr CB_true \<Rightarrow> Inr (NULL, buffer)
           | Inr CB_error \<Rightarrow> Inr (NULL, buffer)
           | Inr CB_false \<Rightarrow>
               if emCircularPort_EnterCritical p (sem b) \<noteq> 0 then Inr (NULL, buffer)
               else if maxElems b = 0 then Inl DivisionByZero
               else
                 let retval = startBuffer b + headInd b * elemSize b;
                     b' = b\<lparr>headInd := (headInd b + 1) mod maxElems b,
                            NbElems := NbElems b + 1\<rparr>
                 in Inr (if NbElems b' > maxElems b' then NULL else retval, Some b')))"

text \<open>
  \<^verbatim>\<open>emCircularGetTail\<close>. The guard \<^verbatim>\<open>buffer->NbElems < 0\<close> compares a \<^verbatim>\<open>size_t\<close> with
  the constant 0 converted to \<^verbatim>\<open>size_t\<close>: it is the unsigned comparison below.
\<close>

definition NbElems_negative :: "CBuffer_t \<Rightarrow> bool" where
  "NbElems_negative b = (NbElems b < 0)"

definition emCircularGetTail ::
  "port \<Rightarrow> CBuffer_t option \<Rightarrow> error + (ptr \<times> CBuffer_t option)" where
  "emCircularGetTail p buffer =
     (case buffer of
        None \<Rightarrow> Inr (NULL, None)
      | Some b \<Rightarrow>
          (case emCircularIsEmpty p buffer of
             Inl e \<Rightarrow> Inl e
           | Inr CB_true \<Rightarrow> Inr (NULL, buffer)
           | Inr CB_error \<Rightarrow> Inr (NULL, buffer)
           | Inr CB_false \<Rightarrow>
               if emCircularPort_EnterCritical p (sem b) \<noteq> 0 then Inr (NULL, buffer)
               else if maxElems b = 0 then Inl DivisionByZero
               else
                 let retval = startBuffer b + tailInd b * elemSize b;
                     b' = b\<lparr>tailInd := (tailInd b + 1) mod maxElems b,
                            NbElems := NbElems b - 1\<rparr>
                 in Inr (if NbElems_negative b' then NULL else retval, Some b')))"

subsection \<open>A single-threaded caller\<close>

text \<open>
  A caller issues producer and consumer acquisitions one after the other on the same
  handle; \<open>calls\<close> runs such a sequence and records what each call returned.
\<close>

datatype call = GetHead | GetTail

fun calls ::
  "port \<Rightarrow> call list \<Rightarrow> CBuffer_t option \<Rightarrow> error + ((call \<times> ptr) list \<times> CBuffer_t option)" where
  "calls p [] buffer = Inr ([], buffer)"
| "calls p (c # cs) buffer =
     (case (case c of GetHead \<Rightarrow> emCircularGetHead p buffer
                    | GetTail \<Rightarrow> emCircularGetTail p buffer) of
        Inl e \<Rightarrow> Inl e
      | Inr (r, buffer') \<Rightarrow>
          (case calls p cs buffer' of
             Inl e \<Rightarrow> Inl e
           | Inr (tr, buffer'') \<Rightarrow> Inr ((c, r) # tr, buffer'')))"

text \<open>The slot pointers of the successful (non-null) acquisitions of one kind, in order.\<close>

definition granted :: "call \<Rightarrow> (call \<times> ptr) list \<Rightarrow> ptr list" where
  "granted c tr = map snd (filter (\<lambda>(c', r). c' = c \<and> r \<noteq> NULL) tr)"

text \<open>The pointers returned by all the acquisitions of one kind, in order, null or not.\<close>

definition returned :: "call \<Rightarrow> (call \<times> ptr) list \<Rightarrow> ptr list" where
  "returned c tr = map snd (filter (\<lambda>(c', r). c' = c) tr)"

text \<open>
  The caller's discipline of a producer and a consumer that never overrun each other,
  for a ring of capacity \<open>C\<close> with \<open>n\<close> slots outstanding: a producer acquisition
  is issued only while fewer than \<open>C - 1\<close> slots are outstanding, a consumer
  acquisition only while at least one is.
\<close>

fun paced :: "nat \<Rightarrow> nat \<Rightarrow> call list \<Rightarrow> bool" where
  "paced C n [] = True"
| "paced C n (GetHead # cs) = (n + 1 < C \<and> paced C (n + 1) cs)"
| "paced C n (GetTail # cs) = (0 < n \<and> paced C (n - 1) cs)"

text \<open>The repository's configuration: no lock, and an allocator whose replies are given.\<close>

definition no_lock_port :: "ptr \<Rightarrow> ptr \<Rightarrow> port" where
  "no_lock_port s d =
     \<lparr>CIRCULAR_USE_LOCK_MECHANISM = False, malloc_CBuffer = s,
      malloc_storage = (\<lambda>bytes. d), osSemaphoreNew = NULL,
      osSemaphoreAcquire = (\<lambda>ptrSem. 0)\<rparr>"

section \<open>Notions used by the statements and proofs\<close>

text \<open>
  The ring discipline of a buffer structure: a capacity of at least two, both indices
  below the capacity, at most \<open>capacity - 1\<close> occupied slots, and the occupancy
  counter equal to the distance from \<open>tailInd\<close> to \<open>headInd\<close> around the ring.
\<close>

definition cb_inv :: "CBuffer_t \<Rightarrow> bool" where
  "cb_inv b \<longleftrightarrow>
     2 \<le> maxElems b \<and> headInd b < maxElems b \<and> tailInd b < maxElems b \<and>
     NbElems b \<le> maxElems b - 1 \<and>
     uint (NbElems b) = (uint (headInd b) - uint (tailInd b)) mod uint (maxElems b)"

text \<open>The address of slot \<open>i\<close>, as both acquisitions compute it.\<close>

definition slot_at :: "CBuffer_t \<Rightarrow> nat \<Rightarrow> ptr" where
  "slot_at b i = startBuffer b + of_nat i * elemSize b"

text \<open>The slots handed to the producer and not yet to the consumer, oldest first.\<close>

definition pending :: "CBuffer_t \<Rightarrow> ptr list" where
  "pending b =
     map (\<lambda>i. slot_at b ((unat (tailInd b) + i) mod unat (maxElems b))) [0..<unat (NbElems b)]"

text \<open>The fields no acquisition writes.\<close>

definition same_layout :: "CBuffer_t \<Rightarrow> CBuffer_t \<Rightarrow> bool" where
  "same_layout b b' \<longleftrightarrow>
     startBuffer b' = startBuffer b \<and> elemSize b' = elemSize b \<and>
     maxElems b' = maxElems b \<and> sem b' = sem b"

section \<open>Auxiliary facts\<close>

lemma ring_count_iff:
  fixes H T N C :: nat
  assumes "H < C" "T < C" "N < C"
  shows "int N = (int H - int T) mod int C \<longleftrightarrow> H = (T + N) mod C"
proof
  assume a: "int N = (int H - int T) mod int C"
  have "int ((T + N) mod C) = (int T + int N) mod int C"
    by (simp add: zmod_int)
  also have "\<dots> = (int T + (int H - int T) mod int C) mod int C"
    using a by simp
  also have "\<dots> = (int T + (int H - int T)) mod int C"
    by (simp add: mod_add_right_eq)
  also have "\<dots> = int H"
    using assms by simp
  finally show "H = (T + N) mod C" by simp
next
  assume a: "H = (T + N) mod C"
  have "(int H - int T) mod int C = (int ((T + N) mod C) - int T) mod int C"
    using a by simp
  also have "\<dots> = ((int T + int N) mod int C - int T) mod int C"
    by (simp add: zmod_int)
  also have "\<dots> = ((int T + int N) - int T) mod int C"
    by (simp add: mod_diff_left_eq)
  also have "\<dots> = int N"
    using assms by simp
  finally show "int N = (int H - int T) mod int C" by simp
qed

lemma cb_inv_nat:
  "cb_inv b \<longleftrightarrow>
     2 \<le> unat (maxElems b) \<and> unat (headInd b) < unat (maxElems b) \<and>
     unat (tailInd b) < unat (maxElems b) \<and> unat (NbElems b) < unat (maxElems b) \<and>
     unat (headInd b) = (unat (tailInd b) + unat (NbElems b)) mod unat (maxElems b)"
proof -
  have le2: "2 \<le> maxElems b \<longleftrightarrow> 2 \<le> unat (maxElems b)"
    by (simp add: word_le_nat_alt)
  have cnt: "NbElems b \<le> maxElems b - 1 \<longleftrightarrow> unat (NbElems b) < unat (maxElems b)"
    if "2 \<le> unat (maxElems b)"
  proof -
    have "maxElems b \<noteq> 0" using that by auto
    then have "unat (maxElems b - 1) = unat (maxElems b) - 1"
      by (simp add: unat_minus_one)
    then show ?thesis using that by (auto simp: word_le_nat_alt)
  qed
  show ?thesis
    unfolding cb_inv_def le2
    using cnt ring_count_iff [of "unat (headInd b)" "unat (maxElems b)" "unat (tailInd b)" "unat (NbElems b)"]
    by (auto simp: word_less_nat_alt)
qed

lemma unat_succ_mod:
  fixes h c :: "32 word"
  assumes "unat h < unat c"
  shows "unat ((h + 1) mod c) = (unat h + 1) mod unat c"
proof -
  have "unat c < 2 ^ 32" using unsigned_less [of c] by simp
  then have "unat h + unat (1 :: 32 word) < 2 ^ LENGTH(32)" using assms by simp
  then have "unat (h + 1) = unat h + 1"
    by (simp add: unat_add_lem [THEN iffD1])
  then show ?thesis by (simp add: unat_mod_distrib)
qed

lemma unat_succ:
  fixes n c :: "32 word"
  assumes "unat n < unat c"
  shows "unat (n + 1) = unat n + 1"
proof -
  have "unat c < 2 ^ 32" using unsigned_less [of c] by simp
  then have "unat n + unat (1 :: 32 word) < 2 ^ LENGTH(32)" using assms by simp
  then show ?thesis by (simp add: unat_add_lem [THEN iffD1])
qed

lemma IsFull_false_iff:
  "emCircularIsFull p (Some b) = Inr CB_false \<longleftrightarrow>
     emCircularPort_EnterCritical p (sem b) = 0 \<and> maxElems b \<noteq> 0 \<and>
     (headInd b + 1) mod maxElems b \<noteq> tailInd b"
  by (simp add: emCircularIsFull_def)

lemma IsEmpty_false_iff:
  "emCircularIsEmpty p (Some b) = Inr CB_false \<longleftrightarrow>
     emCircularPort_EnterCritical p (sem b) = 0 \<and> headInd b \<noteq> tailInd b"
  by (simp add: emCircularIsEmpty_def)

lemma GetHead_not_full:
  assumes nf: "emCircularIsFull p (Some b) = Inr CB_false"
    and cnt: "unat (NbElems b) < unat (maxElems b)"
  shows "emCircularGetHead p (Some b) =
           Inr (startBuffer b + headInd b * elemSize b,
                Some (b\<lparr>headInd := (headInd b + 1) mod maxElems b, NbElems := NbElems b + 1\<rparr>))"
proof -
  have "unat (NbElems b + 1) = unat (NbElems b) + 1"
    using cnt by (rule unat_succ)
  then have "\<not> maxElems b < NbElems b + 1"
    using cnt by (simp add: word_less_nat_alt)
  moreover have "emCircularPort_EnterCritical p (sem b) = 0" "maxElems b \<noteq> 0"
    using nf by (simp_all add: IsFull_false_iff)
  ultimately show ?thesis
    by (simp add: emCircularGetHead_def nf Let_def)
qed

lemma GetHead_refused:
  assumes "emCircularIsFull p (Some b) = Inr CB_true \<or> emCircularIsFull p (Some b) = Inr CB_error"
  shows "emCircularGetHead p (Some b) = Inr (NULL, Some b)"
  using assms by (auto simp: emCircularGetHead_def)

lemma GetTail_not_empty:
  assumes ne: "emCircularIsEmpty p (Some b) = Inr CB_false"
    and cap: "maxElems b \<noteq> 0"
  shows "emCircularGetTail p (Some b) =
           Inr (startBuffer b + tailInd b * elemSize b,
                Some (b\<lparr>tailInd := (tailInd b + 1) mod maxElems b, NbElems := NbElems b - 1\<rparr>))"
proof -
  have "emCircularPort_EnterCritical p (sem b) = 0"
    using ne by (simp add: IsEmpty_false_iff)
  then show ?thesis
    using cap by (simp add: emCircularGetTail_def ne Let_def NbElems_negative_def)
qed

lemma GetTail_refused:
  assumes "emCircularIsEmpty p (Some b) = Inr CB_true \<or> emCircularIsEmpty p (Some b) = Inr CB_error"
  shows "emCircularGetTail p (Some b) = Inr (NULL, Some b)"
  using assms by (auto simp: emCircularGetTail_def)

lemma IsFull_inv_cases:
  assumes "cb_inv b"
  shows "emCircularIsFull p (Some b) = Inr CB_error \<or> emCircularIsFull p (Some b) = Inr CB_true
         \<or> emCircularIsFull p (Some b) = Inr CB_false"
proof -
  have "maxElems b \<noteq> 0" using assms by (auto simp: cb_inv_nat)
  then show ?thesis by (simp add: emCircularIsFull_def)
qed

lemma IsEmpty_cases:
  "emCircularIsEmpty p (Some b) = Inr CB_error \<or> emCircularIsEmpty p (Some b) = Inr CB_true
   \<or> emCircularIsEmpty p (Some b) = Inr CB_false"
  by (simp add: emCircularIsEmpty_def)

lemma ring_push:
  fixes H T N C :: nat
  assumes "T < C" "N < C" "H = (T + N) mod C" "(H + 1) mod C \<noteq> T"
  shows "N + 1 < C" and "(H + 1) mod C = (T + (N + 1)) mod C"
proof -
  show eq: "(H + 1) mod C = (T + (N + 1)) mod C"
    using assms(3) by (simp add: mod_Suc_eq)
  show "N + 1 < C"
  proof (rule ccontr)
    assume "\<not> N + 1 < C"
    then have "N + 1 = C" using assms(2) by simp
    then have "(T + (N + 1)) mod C = T" using assms(1) by simp
    then show False using eq assms(4) by simp
  qed
qed

lemma ring_pop:
  fixes H T N C :: nat
  assumes "T < C" "N < C" "H = (T + N) mod C" "H \<noteq> T"
  shows "0 < N" and "H = ((T + 1) mod C + (N - 1)) mod C"
proof -
  show pos: "0 < N"
  proof (rule ccontr)
    assume "\<not> 0 < N"
    then have "H = T" using assms(1,3) by simp
    then show False using assms(4) by simp
  qed
  have "((T + 1) mod C + (N - 1)) mod C = ((T + 1) + (N - 1)) mod C"
    by (simp add: mod_add_left_eq)
  also have "\<dots> = (T + N) mod C" using pos by simp
  finally show "H = ((T + 1) mod C + (N - 1)) mod C" using assms(3) by simp
qed

lemma cb_inv_head_advanced:
  assumes inv: "cb_inv b" and nf: "(headInd b + 1) mod maxElems b \<noteq> tailInd b"
  shows "cb_inv (b\<lparr>headInd := (headInd b + 1) mod maxElems b, NbElems := NbElems b + 1\<rparr>)"
    and "unat (NbElems b) + 1 < unat (maxElems b)"
proof -
  let ?H = "unat (headInd b)" and ?T = "unat (tailInd b)" and ?N = "unat (NbElems b)"
    and ?C = "unat (maxElems b)"
  from inv have f: "2 \<le> ?C" "?H < ?C" "?T < ?C" "?N < ?C" "?H = (?T + ?N) mod ?C"
    by (simp_all add: cb_inv_nat)
  have h': "unat ((headInd b + 1) mod maxElems b) = (?H + 1) mod ?C"
    using f(2) by (rule unat_succ_mod)
  have "(?H + 1) mod ?C \<noteq> ?T"
    using nf h' by (metis word_unat_eq_iff)
  from ring_push [OF f(3) f(4) f(5) this]
  have r: "?N + 1 < ?C" "(?H + 1) mod ?C = (?T + (?N + 1)) mod ?C" .
  have n': "unat (NbElems b + 1) = ?N + 1" using f(4) by (rule unat_succ)
  show "?N + 1 < ?C" by (rule r(1))
  show "cb_inv (b\<lparr>headInd := (headInd b + 1) mod maxElems b, NbElems := NbElems b + 1\<rparr>)"
    using f r by (simp add: cb_inv_nat h' n')
qed

lemma cb_inv_tail_advanced:
  assumes inv: "cb_inv b" and ne: "headInd b \<noteq> tailInd b"
  shows "cb_inv (b\<lparr>tailInd := (tailInd b + 1) mod maxElems b, NbElems := NbElems b - 1\<rparr>)"
    and "0 < unat (NbElems b)"
proof -
  let ?H = "unat (headInd b)" and ?T = "unat (tailInd b)" and ?N = "unat (NbElems b)"
    and ?C = "unat (maxElems b)"
  from inv have f: "2 \<le> ?C" "?H < ?C" "?T < ?C" "?N < ?C" "?H = (?T + ?N) mod ?C"
    by (simp_all add: cb_inv_nat)
  have t': "unat ((tailInd b + 1) mod maxElems b) = (?T + 1) mod ?C"
    using f(3) by (rule unat_succ_mod)
  have "?H \<noteq> ?T" using ne by (metis word_unat_eq_iff)
  from ring_pop [OF f(3) f(4) f(5) this]
  have r: "0 < ?N" "?H = ((?T + 1) mod ?C + (?N - 1)) mod ?C" .
  then have "NbElems b \<noteq> 0" by auto
  then have n': "unat (NbElems b - 1) = ?N - 1" by (simp add: unat_minus_one)
  show "0 < ?N" by (rule r(1))
  show "cb_inv (b\<lparr>tailInd := (tailInd b + 1) mod maxElems b, NbElems := NbElems b - 1\<rparr>)"
    using f r by (simp add: cb_inv_nat t' n')
qed

lemma same_layout_refl: "same_layout b b"
  by (simp add: same_layout_def)

lemma same_layout_trans: "same_layout a b \<Longrightarrow> same_layout b c \<Longrightarrow> same_layout a c"
  by (simp add: same_layout_def)

lemma pending_head_advanced:
  assumes inv: "cb_inv b"
  shows "pending (b\<lparr>headInd := (headInd b + 1) mod maxElems b, NbElems := NbElems b + 1\<rparr>)
           = pending b @ [startBuffer b + headInd b * elemSize b]"
proof -
  from inv have f: "unat (NbElems b) < unat (maxElems b)"
    "unat (headInd b) = (unat (tailInd b) + unat (NbElems b)) mod unat (maxElems b)"
    by (simp_all add: cb_inv_nat)
  have n': "unat (NbElems b + 1) = Suc (unat (NbElems b))" using unat_succ [OF f(1)] by simp
  have "slot_at b (unat (headInd b)) = startBuffer b + headInd b * elemSize b"
    by (simp add: slot_at_def)
  then show ?thesis
    using f(2) by (simp add: pending_def n' slot_at_def)
qed

lemma pending_tail_advanced:
  assumes inv: "cb_inv b" and pos: "0 < unat (NbElems b)"
  shows "pending b = (startBuffer b + tailInd b * elemSize b)
           # pending (b\<lparr>tailInd := (tailInd b + 1) mod maxElems b, NbElems := NbElems b - 1\<rparr>)"
proof -
  let ?T = "unat (tailInd b)" and ?N = "unat (NbElems b)" and ?C = "unat (maxElems b)"
  from inv have f: "?T < ?C" by (simp add: cb_inv_nat)
  have t': "unat ((tailInd b + 1) mod maxElems b) = (?T + 1) mod ?C"
    using f by (rule unat_succ_mod)
  have "NbElems b \<noteq> 0" using pos by auto
  then have n': "unat (NbElems b - 1) = ?N - 1" by (simp add: unat_minus_one)
  have split: "[0..<?N] = 0 # map Suc [0..<?N - 1]"
    using pos by (metis Suc_pred' map_Suc_upt upt_conv_Cons)
  have shift: "(Suc ?T mod ?C + i) mod ?C = Suc (?T + i) mod ?C" for i
    by (metis add_Suc mod_add_left_eq)
  have first: "slot_at b (?T mod ?C) = startBuffer b + tailInd b * elemSize b"
    using f by (simp add: slot_at_def)
  have "pending b = map (\<lambda>i. slot_at b ((?T + i) mod ?C)) (0 # map Suc [0..<?N - 1])"
    unfolding pending_def using split by simp
  also have "\<dots> = (startBuffer b + tailInd b * elemSize b)
      # map (\<lambda>i. slot_at b ((?T + Suc i) mod ?C)) [0..<?N - 1]"
    using first by (simp add: comp_def)
  finally show ?thesis
    by (simp add: pending_def t' n' shift slot_at_def)
qed

lemma granted_Cons:
  "granted c ((c', r) # tr) = (if c' = c \<and> r \<noteq> NULL then r # granted c tr else granted c tr)"
  by (simp add: granted_def)

lemma calls_Cons_GetHead:
  assumes "emCircularGetHead p buffer = Inr (r, buffer')" "calls p cs buffer' = Inr (tr, buffer'')"
  shows "calls p (GetHead # cs) buffer = Inr ((GetHead, r) # tr, buffer'')"
  using assms by simp

lemma calls_Cons_GetTail:
  assumes "emCircularGetTail p buffer = Inr (r, buffer')" "calls p cs buffer' = Inr (tr, buffer'')"
  shows "calls p (GetTail # cs) buffer = Inr ((GetTail, r) # tr, buffer'')"
  using assms by simp

lemma calls_fifo:
  assumes "cb_inv b"
  shows "\<exists>tr b'. calls p cs (Some b) = Inr (tr, Some b') \<and> cb_inv b' \<and> same_layout b b' \<and>
           filter (\<lambda>r. r \<noteq> NULL) (pending b) @ granted GetHead tr
             = granted GetTail tr @ filter (\<lambda>r. r \<noteq> NULL) (pending b')"
  using assms
proof (induction cs arbitrary: b)
  case Nil
  then show ?case by (simp add: granted_def same_layout_refl)
next
  case (Cons c cs)
  show ?case
  proof (cases c)
    case GetHead
    from IsFull_inv_cases [OF Cons.prems, of p]
    consider (refused) "emCircularIsFull p (Some b) = Inr CB_true \<or> emCircularIsFull p (Some b) = Inr CB_error"
      | (free) "emCircularIsFull p (Some b) = Inr CB_false" by blast
    then show ?thesis
    proof cases
      case refused
      then have step: "emCircularGetHead p (Some b) = Inr (NULL, Some b)" by (rule GetHead_refused)
      from Cons.IH [OF Cons.prems] obtain tr b' where
        r: "calls p cs (Some b) = Inr (tr, Some b')" "cb_inv b'" "same_layout b b'"
        "filter (\<lambda>r. r \<noteq> NULL) (pending b) @ granted GetHead tr
           = granted GetTail tr @ filter (\<lambda>r. r \<noteq> NULL) (pending b')" by blast
      have "calls p (c # cs) (Some b) = Inr ((GetHead, NULL) # tr, Some b')"
        unfolding GetHead using step r(1) by (rule calls_Cons_GetHead)
      then show ?thesis using r by (auto simp: granted_Cons)
    next
      case free
      let ?b1 = "b\<lparr>headInd := (headInd b + 1) mod maxElems b, NbElems := NbElems b + 1\<rparr>"
      let ?r = "startBuffer b + headInd b * elemSize b"
      have nf: "(headInd b + 1) mod maxElems b \<noteq> tailInd b"
        using free by (simp add: IsFull_false_iff)
      have inv1: "cb_inv ?b1" using Cons.prems nf by (rule cb_inv_head_advanced)
      have "unat (NbElems b) < unat (maxElems b)" using Cons.prems by (simp add: cb_inv_nat)
      with free have step: "emCircularGetHead p (Some b) = Inr (?r, Some ?b1)"
        by (rule GetHead_not_full)
      have pend: "pending ?b1 = pending b @ [?r]" using Cons.prems by (rule pending_head_advanced)
      from Cons.IH [OF inv1] obtain tr b' where
        r: "calls p cs (Some ?b1) = Inr (tr, Some b')" "cb_inv b'" "same_layout ?b1 b'"
        "filter (\<lambda>r. r \<noteq> NULL) (pending ?b1) @ granted GetHead tr
           = granted GetTail tr @ filter (\<lambda>r. r \<noteq> NULL) (pending b')" by blast
      have c: "calls p (c # cs) (Some b) = Inr ((GetHead, ?r) # tr, Some b')"
        unfolding GetHead using step r(1) by (rule calls_Cons_GetHead)
      have l: "same_layout b b'" using r(3) by (simp add: same_layout_def)
      have "filter (\<lambda>r. r \<noteq> NULL) (pending b) @ granted GetHead ((GetHead, ?r) # tr)
              = granted GetTail ((GetHead, ?r) # tr) @ filter (\<lambda>r. r \<noteq> NULL) (pending b')"
        using r(4) by (cases "?r = NULL") (simp_all add: pend granted_Cons)
      then show ?thesis using c r(2) l by blast
    qed
  next
    case GetTail
    from IsEmpty_cases [of p b]
    consider (refused) "emCircularIsEmpty p (Some b) = Inr CB_true \<or> emCircularIsEmpty p (Some b) = Inr CB_error"
      | (data) "emCircularIsEmpty p (Some b) = Inr CB_false" by blast
    then show ?thesis
    proof cases
      case refused
      then have step: "emCircularGetTail p (Some b) = Inr (NULL, Some b)" by (rule GetTail_refused)
      from Cons.IH [OF Cons.prems] obtain tr b' where
        r: "calls p cs (Some b) = Inr (tr, Some b')" "cb_inv b'" "same_layout b b'"
        "filter (\<lambda>r. r \<noteq> NULL) (pending b) @ granted GetHead tr
           = granted GetTail tr @ filter (\<lambda>r. r \<noteq> NULL) (pending b')" by blast
      have "calls p (c # cs) (Some b) = Inr ((GetTail, NULL) # tr, Some b')"
        unfolding GetTail using step r(1) by (rule calls_Cons_GetTail)
      then show ?thesis using r by (auto simp: granted_Cons)
    next
      case data
      let ?b1 = "b\<lparr>tailInd := (tailInd b + 1) mod maxElems b, NbElems := NbElems b - 1\<rparr>"
      let ?r = "startBuffer b + tailInd b * elemSize b"
      have ne: "headInd b \<noteq> tailInd b"
        using data by (simp add: IsEmpty_false_iff)
      have inv1: "cb_inv ?b1" and pos: "0 < unat (NbElems b)"
        using Cons.prems ne by (rule cb_inv_tail_advanced)+
      have "maxElems b \<noteq> 0" using Cons.prems by (auto simp: cb_inv_nat)
      with data have step: "emCircularGetTail p (Some b) = Inr (?r, Some ?b1)"
        by (rule GetTail_not_empty)
      have pend: "pending b = ?r # pending ?b1" using Cons.prems pos by (rule pending_tail_advanced)
      from Cons.IH [OF inv1] obtain tr b' where
        r: "calls p cs (Some ?b1) = Inr (tr, Some b')" "cb_inv b'" "same_layout ?b1 b'"
        "filter (\<lambda>r. r \<noteq> NULL) (pending ?b1) @ granted GetHead tr
           = granted GetTail tr @ filter (\<lambda>r. r \<noteq> NULL) (pending b')" by blast
      have c: "calls p (c # cs) (Some b) = Inr ((GetTail, ?r) # tr, Some b')"
        unfolding GetTail using step r(1) by (rule calls_Cons_GetTail)
      have l: "same_layout b b'" using r(3) by (simp add: same_layout_def)
      have "filter (\<lambda>r. r \<noteq> NULL) (pending b) @ granted GetHead ((GetTail, ?r) # tr)
              = granted GetTail ((GetTail, ?r) # tr) @ filter (\<lambda>r. r \<noteq> NULL) (pending b')"
        using r(4) by (cases "?r = NULL") (simp_all add: pend granted_Cons)
      then show ?thesis using c r(2) l by blast
    qed
  qed
qed

lemma Init_Some:
  assumes "emCircularInit p C es nm = Inr (Some b0)"
  shows "b0 = \<lparr>tailInd = 0, headInd = 0, startBuffer = malloc_storage p (C * es),
               elemSize = es, maxElems = C, NbElems = 0,
               sem = emCircularPort_InitBynSem p nm\<rparr>"
    and "2 \<le> C" and "1 \<le> es" and "malloc_CBuffer p \<noteq> NULL"
    and "CIRCULAR_USE_LOCK_MECHANISM p \<Longrightarrow> osSemaphoreNew p \<noteq> NULL"
proof -
  have one: "1 \<le> w \<longleftrightarrow> w \<noteq> 0" for w :: "32 word"
    by (simp add: word_le_nat_alt Suc_le_eq unat_gt_0)
  show "b0 = \<lparr>tailInd = 0, headInd = 0, startBuffer = malloc_storage p (C * es),
               elemSize = es, maxElems = C, NbElems = 0,
               sem = emCircularPort_InitBynSem p nm\<rparr>"
    and "2 \<le> C" and "1 \<le> es" and "malloc_CBuffer p \<noteq> NULL"
    and "CIRCULAR_USE_LOCK_MECHANISM p \<Longrightarrow> osSemaphoreNew p \<noteq> NULL"
    using assms
    by (auto simp: emCircularInit_def Let_def emCircularPort_InitBynSem_def not_less one
             split: if_splits)
qed

lemma cb_inv_Init:
  assumes "emCircularInit p C es nm = Inr (Some b0)"
  shows "cb_inv b0" and "pending b0 = []" and "maxElems b0 = C"
proof -
  note i = Init_Some [OF assms]
  have "2 \<le> unat C" using i(2) by (simp add: word_le_nat_alt)
  then show "cb_inv b0" by (simp add: cb_inv_nat i(1))
  show "pending b0 = []" by (simp add: pending_def i(1))
  show "maxElems b0 = C" by (simp add: i(1))
qed

lemma ring_full_iff:
  fixes H T N C :: nat
  assumes "T < C" "N < C" "H = (T + N) mod C"
  shows "(H + 1) mod C = T \<longleftrightarrow> N + 1 = C"
proof -
  have eq: "(H + 1) mod C = (T + (N + 1)) mod C"
    using assms(3) by (simp add: mod_Suc_eq)
  show ?thesis
  proof (cases "T + (N + 1) < C")
    case True
    then show ?thesis using eq by simp
  next
    case False
    then have "(T + (N + 1)) mod C = (T + (N + 1) - C) mod C"
      by (simp add: le_mod_geq)
    also have "\<dots> = T + (N + 1) - C" using assms(1,2) by simp
    finally show ?thesis using eq False assms(1,2) by auto
  qed
qed

lemma full_iff_no_room:
  assumes inv: "cb_inv b"
  shows "(headInd b + 1) mod maxElems b = tailInd b \<longleftrightarrow> unat (NbElems b) + 1 = unat (maxElems b)"
proof -
  let ?H = "unat (headInd b)" and ?T = "unat (tailInd b)" and ?N = "unat (NbElems b)"
    and ?C = "unat (maxElems b)"
  from inv have f: "?H < ?C" "?T < ?C" "?N < ?C" "?H = (?T + ?N) mod ?C"
    by (simp_all add: cb_inv_nat)
  have h': "unat ((headInd b + 1) mod maxElems b) = (?H + 1) mod ?C"
    using f(1) by (rule unat_succ_mod)
  have "(headInd b + 1) mod maxElems b = tailInd b \<longleftrightarrow> (?H + 1) mod ?C = ?T"
    using h' by (metis word_unat_eq_iff)
  then show ?thesis using ring_full_iff [OF f(2) f(3) f(4)] by simp
qed

lemma slot_at_head_advanced:
  "slot_at (b\<lparr>headInd := h, NbElems := n\<rparr>) i = slot_at b i"
  by (simp add: slot_at_def)

lemma calls_fill:
  assumes "cb_inv b" and "emCircularPort_EnterCritical p (sem b) = 0"
    and "unat (NbElems b) + k < unat (maxElems b)"
  shows "\<exists>b'. calls p (replicate k GetHead) (Some b)
                = Inr (map (\<lambda>i. (GetHead, slot_at b ((unat (headInd b) + i) mod unat (maxElems b))))
                         [0..<k], Some b') \<and>
              cb_inv b' \<and> same_layout b b' \<and> tailInd b' = tailInd b \<and>
              unat (NbElems b') = unat (NbElems b) + k"
  using assms
proof (induction k arbitrary: b)
  case 0
  then show ?case by (simp add: same_layout_refl)
next
  case (Suc k)
  let ?C = "unat (maxElems b)" and ?H = "unat (headInd b)"
  let ?b1 = "b\<lparr>headInd := (headInd b + 1) mod maxElems b, NbElems := NbElems b + 1\<rparr>"
  from Suc.prems(1) have f: "?H < ?C" "unat (NbElems b) < ?C" "maxElems b \<noteq> 0"
    by (auto simp: cb_inv_nat)
  have nf: "(headInd b + 1) mod maxElems b \<noteq> tailInd b"
    using Suc.prems(3) by (simp add: full_iff_no_room [OF Suc.prems(1)])
  then have "emCircularIsFull p (Some b) = Inr CB_false"
    using Suc.prems(2) f(3) by (simp add: IsFull_false_iff)
  then have step: "emCircularGetHead p (Some b)
      = Inr (startBuffer b + headInd b * elemSize b, Some ?b1)"
    using f(2) by (rule GetHead_not_full)
  have inv1: "cb_inv ?b1" using Suc.prems(1) nf by (rule cb_inv_head_advanced)
  have n1: "unat (NbElems ?b1) = unat (NbElems b) + 1" using unat_succ [OF f(2)] by simp
  have h1: "unat (headInd ?b1) = (?H + 1) mod ?C" using unat_succ_mod [OF f(1)] by simp
  have lock1: "emCircularPort_EnterCritical p (sem ?b1) = 0" using Suc.prems(2) by simp
  have room1: "unat (NbElems ?b1) + k < unat (maxElems ?b1)" using Suc.prems(3) n1 by simp
  from Suc.IH [OF inv1 lock1 room1] obtain b' where
    r: "calls p (replicate k GetHead) (Some ?b1)
          = Inr (map (\<lambda>i. (GetHead, slot_at ?b1 ((unat (headInd ?b1) + i) mod unat (maxElems ?b1))))
                   [0..<k], Some b')"
       "cb_inv b'" "same_layout ?b1 b'" "tailInd b' = tailInd ?b1"
       "unat (NbElems b') = unat (NbElems ?b1) + k" by blast
  have shift: "((?H + 1) mod ?C + i) mod ?C = (?H + Suc i) mod ?C" for i
    by (simp add: mod_add_left_eq)
  have tl: "map (\<lambda>i. (GetHead, slot_at ?b1 ((unat (headInd ?b1) + i) mod unat (maxElems ?b1)))) [0..<k]
        = map (\<lambda>i. (GetHead, slot_at b ((?H + i) mod ?C))) (map Suc [0..<k])"
    unfolding h1 slot_at_head_advanced by (simp add: shift comp_def del: One_nat_def)
  have hd: "startBuffer b + headInd b * elemSize b = slot_at b ((?H + 0) mod ?C)"
    using f(1) by (simp add: slot_at_def)
  have "calls p (replicate (Suc k) GetHead) (Some b)
      = Inr ((GetHead, startBuffer b + headInd b * elemSize b)
             # map (\<lambda>i. (GetHead, slot_at ?b1 ((unat (headInd ?b1) + i) mod unat (maxElems ?b1)))) [0..<k],
             Some b')"
    unfolding replicate_Suc using step r(1) by (rule calls_Cons_GetHead)
  also have "(GetHead, startBuffer b + headInd b * elemSize b)
             # map (\<lambda>i. (GetHead, slot_at ?b1 ((unat (headInd ?b1) + i) mod unat (maxElems ?b1)))) [0..<k]
      = map (\<lambda>i. (GetHead, slot_at b ((?H + i) mod ?C))) (0 # map Suc [0..<k])"
    unfolding tl hd by simp
  also have "0 # map Suc [0..<k] = [0..<Suc k]"
    by (metis map_Suc_upt upt_conv_Cons zero_less_Suc)
  finally have c: "calls p (replicate (Suc k) GetHead) (Some b)
      = Inr (map (\<lambda>i. (GetHead, slot_at b ((?H + i) mod ?C))) [0..<Suc k], Some b')" .
  have "same_layout b b'" using r(3) by (simp add: same_layout_def)
  moreover have "tailInd b' = tailInd b" using r(4) by simp
  moreover have "unat (NbElems b') = unat (NbElems b) + Suc k" using r(5) n1 by simp
  ultimately show ?case using c r(2) by blast
qed

lemma slot_at_not_null:
  assumes nn: "startBuffer b \<noteq> NULL"
    and fit: "unat (startBuffer b) + unat (maxElems b) * unat (elemSize b) \<le> 2 ^ 32"
    and i: "i < unat (maxElems b)"
  shows "slot_at b i \<noteq> NULL"
proof -
  let ?a = "unat (startBuffer b)" and ?C = "unat (maxElems b)" and ?s = "unat (elemSize b)"
  from nn fit have a: "0 < ?a" "?a + ?C * ?s \<le> 2 ^ 32"
    by (simp_all add: unat_gt_0)
  have le: "i * ?s \<le> ?C * ?s" using i by simp
  have "unat (maxElems b) < 2 ^ 32" using unsigned_less [of "maxElems b"] by simp
  then have iC: "i < 2 ^ 32" using i by simp
  have ui: "unat (of_nat i :: 32 word) = i" using iC by (simp add: unat_of_nat)
  have abound: "?a < 2 ^ 32" using unsigned_less [of "startBuffer b"] by simp
  have lt: "i * ?s < 2 ^ 32" using a le by linarith
  have lt2: "?a + i * ?s < 2 ^ 32"
  proof (cases "?s = 0")
    case True
    then show ?thesis using abound by simp
  next
    case False
    then have "i * ?s < ?C * ?s" using i by simp
    then show ?thesis using a(2) by linarith
  qed
  have "unat (of_nat i :: 32 word) * ?s < 2 ^ LENGTH(32)" using lt by (simp only: ui) simp
  then have um: "unat (of_nat i * elemSize b) = i * ?s"
    by (simp only: unat_mult_lem [THEN iffD1] ui)
  have "?a + unat (of_nat i * elemSize b) < 2 ^ LENGTH(32)" using lt2 by (simp only: um) simp
  then have "unat (startBuffer b + of_nat i * elemSize b) = ?a + i * ?s"
    by (simp only: unat_add_lem [THEN iffD1] um)
  then have "0 < unat (slot_at b i)" using a(1) by (simp add: slot_at_def)
  then show ?thesis by (simp add: unat_gt_0)
qed

lemma returned_Cons:
  "returned c ((c', r) # tr) = (if c' = c then r # returned c tr else returned c tr)"
  by (simp add: returned_def)

lemma paced_counts:
  "paced C n cs \<Longrightarrow> count_list cs GetTail \<le> n + count_list cs GetHead"
proof (induction cs arbitrary: n)
  case Nil
  then show ?case by simp
next
  case (Cons c cs)
  show ?case
  proof (cases c)
    case GetHead
    with Cons.prems have "paced C (n + 1) cs" by simp
    from Cons.IH [OF this] show ?thesis using GetHead by simp
  next
    case GetTail
    with Cons.prems have "0 < n" "paced C (n - 1) cs" by simp_all
    from Cons.IH [OF this(2)] this(1) show ?thesis using GetTail by simp
  qed
qed

lemma map_upt_Suc_shift:
  "f 0 # map (\<lambda>k. f (Suc k)) [0..<n] = map f [0..<Suc n]"
proof -
  have "[0..<Suc n] = 0 # map Suc [0..<n]"
    by (metis map_Suc_upt upt_conv_Cons zero_less_Suc)
  then show ?thesis by (simp add: comp_def)
qed

lemma slot_at_tail_advanced:
  "slot_at (b\<lparr>tailInd := t, NbElems := n\<rparr>) i = slot_at b i"
  by (simp add: slot_at_def)

lemma calls_paced:
  assumes "cb_inv b" and "emCircularPort_EnterCritical p (sem b) = 0"
    and "paced (unat (maxElems b)) (unat (NbElems b)) cs"
  shows "\<exists>tr b'. calls p cs (Some b) = Inr (tr, Some b') \<and>
           returned GetHead tr
             = map (\<lambda>k. slot_at b ((unat (headInd b) + k) mod unat (maxElems b)))
                 [0..<count_list cs GetHead] \<and>
           returned GetTail tr
             = map (\<lambda>k. slot_at b ((unat (tailInd b) + k) mod unat (maxElems b)))
                 [0..<count_list cs GetTail]"
  using assms
proof (induction cs arbitrary: b)
  case Nil
  then show ?case by (simp add: returned_def)
next
  case (Cons c cs)
  let ?C = "unat (maxElems b)" and ?H = "unat (headInd b)" and ?T = "unat (tailInd b)"
  from Cons.prems(1) have f: "?H < ?C" "?T < ?C" "unat (NbElems b) < ?C" "maxElems b \<noteq> 0"
    by (auto simp: cb_inv_nat)
  show ?case
  proof (cases c)
    case GetHead
    let ?b1 = "b\<lparr>headInd := (headInd b + 1) mod maxElems b, NbElems := NbElems b + 1\<rparr>"
    let ?r = "startBuffer b + headInd b * elemSize b"
    from Cons.prems(3) GetHead have room: "unat (NbElems b) + 1 < ?C"
      and rest: "paced ?C (unat (NbElems b) + 1) cs" by simp_all
    have nf: "(headInd b + 1) mod maxElems b \<noteq> tailInd b"
      using room by (simp add: full_iff_no_room [OF Cons.prems(1)])
    then have "emCircularIsFull p (Some b) = Inr CB_false"
      using Cons.prems(2) f(4) by (simp add: IsFull_false_iff)
    then have step: "emCircularGetHead p (Some b) = Inr (?r, Some ?b1)"
      using f(3) by (rule GetHead_not_full)
    have inv1: "cb_inv ?b1" using Cons.prems(1) nf by (rule cb_inv_head_advanced)
    have n1: "unat (NbElems ?b1) = unat (NbElems b) + 1" using unat_succ [OF f(3)] by simp
    have h1: "unat (headInd ?b1) = (?H + 1) mod ?C" using unat_succ_mod [OF f(1)] by simp
    have lock1: "emCircularPort_EnterCritical p (sem ?b1) = 0" using Cons.prems(2) by simp
    have paced1: "paced (unat (maxElems ?b1)) (unat (NbElems ?b1)) cs" using rest n1 by simp
    from Cons.IH [OF inv1 lock1 paced1] obtain tr b' where
      r: "calls p cs (Some ?b1) = Inr (tr, Some b')"
         "returned GetHead tr
            = map (\<lambda>k. slot_at ?b1 ((unat (headInd ?b1) + k) mod unat (maxElems ?b1)))
                [0..<count_list cs GetHead]"
         "returned GetTail tr
            = map (\<lambda>k. slot_at ?b1 ((unat (tailInd ?b1) + k) mod unat (maxElems ?b1)))
                [0..<count_list cs GetTail]" by blast
    have c: "calls p (c # cs) (Some b) = Inr ((GetHead, ?r) # tr, Some b')"
      unfolding GetHead using step r(1) by (rule calls_Cons_GetHead)
    have shift: "((?H + 1) mod ?C + k) mod ?C = (?H + Suc k) mod ?C" for k
      by (simp add: mod_add_left_eq)
    have hd: "?r = slot_at b ((?H + 0) mod ?C)"
      using f(1) by (simp add: slot_at_def)
    have "returned GetHead ((GetHead, ?r) # tr)
        = slot_at b ((?H + 0) mod ?C)
          # map (\<lambda>k. slot_at b ((?H + Suc k) mod ?C)) [0..<count_list cs GetHead]"
      unfolding returned_Cons r(2) h1 slot_at_head_advanced hd [symmetric]
      by (simp add: shift del: One_nat_def)
    also have "\<dots> = map (\<lambda>k. slot_at b ((?H + k) mod ?C)) [0..<Suc (count_list cs GetHead)]"
      by (rule map_upt_Suc_shift)
    finally have heads: "returned GetHead ((GetHead, ?r) # tr)
        = map (\<lambda>k. slot_at b ((?H + k) mod ?C)) [0..<count_list (c # cs) GetHead]"
      using GetHead by simp
    have tails: "returned GetTail ((GetHead, ?r) # tr)
        = map (\<lambda>k. slot_at b ((?T + k) mod ?C)) [0..<count_list (c # cs) GetTail]"
      using r(3) GetHead by (simp add: returned_Cons slot_at_head_advanced)
    from c heads tails show ?thesis by blast
  next
    case GetTail
    let ?b1 = "b\<lparr>tailInd := (tailInd b + 1) mod maxElems b, NbElems := NbElems b - 1\<rparr>"
    let ?r = "startBuffer b + tailInd b * elemSize b"
    from Cons.prems(3) GetTail have pos: "0 < unat (NbElems b)"
      and rest: "paced ?C (unat (NbElems b) - 1) cs" by simp_all
    have ne: "headInd b \<noteq> tailInd b"
    proof
      assume "headInd b = tailInd b"
      then have "uint (NbElems b) = 0" using Cons.prems(1) by (simp add: cb_inv_def)
      then show False using pos by (simp add: unat_gt_0 uint_0_iff)
    qed
    then have "emCircularIsEmpty p (Some b) = Inr CB_false"
      using Cons.prems(2) by (simp add: IsEmpty_false_iff)
    then have step: "emCircularGetTail p (Some b) = Inr (?r, Some ?b1)"
      using f(4) by (rule GetTail_not_empty)
    have inv1: "cb_inv ?b1" using Cons.prems(1) ne by (rule cb_inv_tail_advanced)
    have "NbElems b \<noteq> 0" using pos by auto
    then have n1: "unat (NbElems ?b1) = unat (NbElems b) - 1" by (simp add: unat_minus_one)
    have t1: "unat (tailInd ?b1) = (?T + 1) mod ?C" using unat_succ_mod [OF f(2)] by simp
    have lock1: "emCircularPort_EnterCritical p (sem ?b1) = 0" using Cons.prems(2) by simp
    have paced1: "paced (unat (maxElems ?b1)) (unat (NbElems ?b1)) cs" using rest n1 by simp
    from Cons.IH [OF inv1 lock1 paced1] obtain tr b' where
      r: "calls p cs (Some ?b1) = Inr (tr, Some b')"
         "returned GetHead tr
            = map (\<lambda>k. slot_at ?b1 ((unat (headInd ?b1) + k) mod unat (maxElems ?b1)))
                [0..<count_list cs GetHead]"
         "returned GetTail tr
            = map (\<lambda>k. slot_at ?b1 ((unat (tailInd ?b1) + k) mod unat (maxElems ?b1)))
                [0..<count_list cs GetTail]" by blast
    have c: "calls p (c # cs) (Some b) = Inr ((GetTail, ?r) # tr, Some b')"
      unfolding GetTail using step r(1) by (rule calls_Cons_GetTail)
    have shift: "((?T + 1) mod ?C + k) mod ?C = (?T + Suc k) mod ?C" for k
      by (simp add: mod_add_left_eq)
    have hd: "?r = slot_at b ((?T + 0) mod ?C)"
      using f(2) by (simp add: slot_at_def)
    have "returned GetTail ((GetTail, ?r) # tr)
        = slot_at b ((?T + 0) mod ?C)
          # map (\<lambda>k. slot_at b ((?T + Suc k) mod ?C)) [0..<count_list cs GetTail]"
      unfolding returned_Cons r(3) t1 slot_at_tail_advanced hd [symmetric]
      by (simp add: shift del: One_nat_def)
    also have "\<dots> = map (\<lambda>k. slot_at b ((?T + k) mod ?C)) [0..<Suc (count_list cs GetTail)]"
      by (rule map_upt_Suc_shift)
    finally have tails: "returned GetTail ((GetTail, ?r) # tr)
        = map (\<lambda>k. slot_at b ((?T + k) mod ?C)) [0..<count_list (c # cs) GetTail]"
      using GetTail by simp
    have heads: "returned GetHead ((GetTail, ?r) # tr)
        = map (\<lambda>k. slot_at b ((?H + k) mod ?C)) [0..<count_list (c # cs) GetHead]"
      using r(2) GetTail by (simp add: returned_Cons slot_at_tail_advanced)
    from c heads tails show ?thesis by blast
  qed
qed

lemma Init_slot_at:
  assumes "emCircularInit p C es nm = Inr (Some b0)"
  shows "slot_at b0 i = startBuffer b0 + of_nat i * es"
    and "unat (headInd b0) = 0" and "unat (tailInd b0) = 0" and "unat (NbElems b0) = 0"
    and "maxElems b0 = C"
  using Init_Some(1) [OF assms] by (simp_all add: slot_at_def)

text \<open>
  Under the ring discipline the capacity is never below the counter, so with the lock
  granted \<open>emCircularGetRemainingSpace\<close> returns \<open>maxElems - NbElems\<close>, which is
  never zero.
\<close>

lemma GetRemainingSpace_cb_inv:
  assumes "cb_inv b" and "emCircularPort_EnterCritical p (sem b) = 0"
  shows "emCircularGetRemainingSpace p (Some b) = maxElems b - NbElems b"
    and "unat (emCircularGetRemainingSpace p (Some b)) = unat (maxElems b) - unat (NbElems b)"
    and "0 < unat (emCircularGetRemainingSpace p (Some b))"
proof -
  have lt: "unat (NbElems b) < unat (maxElems b)" using assms(1) by (simp add: cb_inv_nat)
  then have le: "NbElems b \<le> maxElems b" by (simp add: word_le_nat_alt)
  then show eq: "emCircularGetRemainingSpace p (Some b) = maxElems b - NbElems b"
    using assms(2) by (simp add: emCircularGetRemainingSpace_def)
  show u: "unat (emCircularGetRemainingSpace p (Some b)) = unat (maxElems b) - unat (NbElems b)"
    unfolding eq using le by (simp add: unat_sub)
  show "0 < unat (emCircularGetRemainingSpace p (Some b))"
    unfolding u using lt by simp
qed

section \<open>Producer acquisition\<close>

text \<open>
  C5. For every buffer that is not full (\<open>emCircularIsFull\<close> answers \<open>CB_false\<close>) and
  whose head index and occupancy counter are below the capacity, as the data model
  requires, \<open>emCircularGetHead\<close> returns the pointer
  \<open>startBuffer + headInd * elemSize\<close> computed from the head index before the call;
  afterwards the head index is \<open>(headInd + 1) mod maxElems\<close>, the counter is one
  larger, and the tail index is unchanged.
\<close>

theorem GetHead_grants_head_slot:
  assumes "emCircularIsFull p (Some b) = Inr CB_false"
    and "headInd b < maxElems b" and "NbElems b < maxElems b"
  shows "\<exists>b'. emCircularGetHead p (Some b)
                = Inr (startBuffer b + headInd b * elemSize b, Some b') \<and>
              unat (headInd b') = (unat (headInd b) + 1) mod unat (maxElems b) \<and>
              unat (NbElems b') = unat (NbElems b) + 1 \<and>
              tailInd b' = tailInd b \<and> same_layout b b'"
proof -
  let ?b' = "b\<lparr>headInd := (headInd b + 1) mod maxElems b, NbElems := NbElems b + 1\<rparr>"
  have h: "unat (headInd b) < unat (maxElems b)" and n: "unat (NbElems b) < unat (maxElems b)"
    using assms(2,3) by (simp_all add: word_less_nat_alt)
  have "emCircularGetHead p (Some b) = Inr (startBuffer b + headInd b * elemSize b, Some ?b')"
    using assms(1) n by (rule GetHead_not_full)
  moreover have "unat (headInd ?b') = (unat (headInd b) + 1) mod unat (maxElems b)"
    using unat_succ_mod [OF h] by simp
  moreover have "unat (NbElems ?b') = unat (NbElems b) + 1"
    using unat_succ [OF n] by simp
  moreover have "tailInd ?b' = tailInd b \<and> same_layout b ?b'"
    by (simp add: same_layout_def)
  ultimately show ?thesis by blast
qed

theorem GetHead_grants_head_slot_witness:
  "emCircularIsFull (no_lock_port 256 4096)
     (Some \<lparr>tailInd = 1, headInd = 3, startBuffer = 4096, elemSize = 4, maxElems = 4,
            NbElems = 2, sem = NULL\<rparr>) = Inr CB_false
   \<and> (\<exists>b'. emCircularGetHead (no_lock_port 256 4096)
             (Some \<lparr>tailInd = 1, headInd = 3, startBuffer = 4096, elemSize = 4, maxElems = 4,
                    NbElems = 2, sem = NULL\<rparr>) = Inr (4108, Some b') \<and>
           unat (headInd b') = 0 \<and> unat (NbElems b') = 3 \<and> tailInd b' = 1)"
proof -
  let ?p = "no_lock_port 256 4096"
  let ?b = "\<lparr>tailInd = 1, headInd = 3, startBuffer = 4096, elemSize = 4, maxElems = 4,
             NbElems = 2, sem = NULL\<rparr>"
  have nf: "emCircularIsFull ?p (Some ?b) = Inr CB_false"
    by (simp add: emCircularIsFull_def emCircularPort_EnterCritical_def no_lock_port_def)
  have h: "headInd ?b < maxElems ?b" and n: "NbElems ?b < maxElems ?b"
    by simp_all
  from GetHead_grants_head_slot [OF nf h n] nf show ?thesis
    by auto
qed

text \<open>
  C8. When the buffer is not full but the counter, once incremented, exceeds the
  capacity, \<open>emCircularGetHead\<close> returns \<open>NULL\<close> in place of the slot pointer, and
  the structure it leaves behind has the head index advanced and the counter
  incremented: nothing is rolled back.
\<close>

theorem GetHead_count_exceeds_capacity:
  assumes "emCircularIsFull p (Some b) = Inr CB_false"
    and "maxElems b < NbElems b + 1"
  shows "emCircularGetHead p (Some b)
           = Inr (NULL, Some (b\<lparr>headInd := (headInd b + 1) mod maxElems b,
                                NbElems := NbElems b + 1\<rparr>))"
proof -
  have "emCircularPort_EnterCritical p (sem b) = 0" "maxElems b \<noteq> 0"
    using assms(1) by (simp_all add: IsFull_false_iff)
  then show ?thesis
    using assms(2) by (simp add: emCircularGetHead_def assms(1) Let_def)
qed

theorem GetHead_count_exceeds_capacity_witness:
  "emCircularIsFull (no_lock_port 256 4096)
     (Some \<lparr>tailInd = 2, headInd = 0, startBuffer = 4096, elemSize = 4, maxElems = 4,
            NbElems = 4, sem = NULL\<rparr>) = Inr CB_false
   \<and> emCircularGetHead (no_lock_port 256 4096)
       (Some \<lparr>tailInd = 2, headInd = 0, startBuffer = 4096, elemSize = 4, maxElems = 4,
              NbElems = 4, sem = NULL\<rparr>)
     = Inr (NULL, Some \<lparr>tailInd = 2, headInd = 1, startBuffer = 4096, elemSize = 4,
                        maxElems = 4, NbElems = 5, sem = NULL\<rparr>)"
proof -
  let ?p = "no_lock_port 256 4096"
  let ?b = "\<lparr>tailInd = 2, headInd = 0, startBuffer = 4096, elemSize = 4, maxElems = 4,
             NbElems = 4, sem = NULL\<rparr>"
  have nf: "emCircularIsFull ?p (Some ?b) = Inr CB_false"
    by (simp add: emCircularIsFull_def emCircularPort_EnterCritical_def no_lock_port_def)
  have ex: "maxElems ?b < NbElems ?b + 1"
    by simp
  from GetHead_count_exceeds_capacity [OF nf ex] nf show ?thesis
    by simp
qed

section \<open>Consumer acquisition\<close>

text \<open>
  C6. For every buffer with \<open>headInd = tailInd\<close>, \<open>emCircularGetTail\<close> returns \<open>NULL\<close>
  and the structure is unchanged, so \<open>headInd\<close>, \<open>tailInd\<close> and \<open>NbElems\<close> keep
  their values. This holds whatever the lock does.
\<close>

theorem GetTail_empty:
  "headInd b = tailInd b \<Longrightarrow> emCircularGetTail p (Some b) = Inr (NULL, Some b)"
  by (simp add: emCircularGetTail_def emCircularIsEmpty_def)

theorem GetTail_empty_witness:
  "headInd \<lparr>tailInd = 2, headInd = 2, startBuffer = 4096, elemSize = 4, maxElems = 4,
            NbElems = 0, sem = NULL\<rparr>
     = tailInd \<lparr>tailInd = 2, headInd = 2, startBuffer = 4096, elemSize = 4, maxElems = 4,
            NbElems = 0, sem = NULL\<rparr>
   \<and> emCircularGetTail (no_lock_port 256 4096)
       (Some \<lparr>tailInd = 2, headInd = 2, startBuffer = 4096, elemSize = 4, maxElems = 4,
              NbElems = 0, sem = NULL\<rparr>)
     = Inr (NULL, Some \<lparr>tailInd = 2, headInd = 2, startBuffer = 4096, elemSize = 4,
                        maxElems = 4, NbElems = 0, sem = NULL\<rparr>)"
  using GetTail_empty [of "\<lparr>tailInd = 2, headInd = 2, startBuffer = 4096, elemSize = 4,
                            maxElems = 4, NbElems = 0, sem = NULL\<rparr>" "no_lock_port 256 4096"]
  by simp

text \<open>
  C9. The guard \<^verbatim>\<open>buffer->NbElems < 0\<close> of \<open>emCircularGetTail\<close> is false for every
  structure, the counter being unsigned. So whenever the consumer acquisition gets
  past the emptiness check on a buffer of non-zero capacity it returns the slot
  pointer it computed, never \<open>NULL\<close> on account of the guard, whatever the counter
  holds.
\<close>

theorem NbElems_guard_never_fires:
  "\<not> NbElems_negative b' \<and>
   (emCircularIsEmpty p (Some b) = Inr CB_false \<and> maxElems b \<noteq> 0 \<longrightarrow>
      emCircularGetTail p (Some b)
        = Inr (startBuffer b + tailInd b * elemSize b,
               Some (b\<lparr>tailInd := (tailInd b + 1) mod maxElems b,
                        NbElems := NbElems b - 1\<rparr>)))"
  by (simp add: NbElems_negative_def GetTail_not_empty)

theorem NbElems_guard_never_fires_witness:
  "emCircularIsEmpty (no_lock_port 256 4096)
     (Some \<lparr>tailInd = 0, headInd = 1, startBuffer = 4096, elemSize = 4, maxElems = 4,
            NbElems = 0, sem = NULL\<rparr>) = Inr CB_false
   \<and> emCircularGetTail (no_lock_port 256 4096)
       (Some \<lparr>tailInd = 0, headInd = 1, startBuffer = 4096, elemSize = 4, maxElems = 4,
              NbElems = 0, sem = NULL\<rparr>)
     = Inr (4096, Some \<lparr>tailInd = 1, headInd = 1, startBuffer = 4096, elemSize = 4,
                        maxElems = 4, NbElems = 4294967295, sem = NULL\<rparr>)"
proof -
  let ?p = "no_lock_port 256 4096"
  let ?b = "\<lparr>tailInd = 0, headInd = 1, startBuffer = 4096, elemSize = 4, maxElems = 4,
             NbElems = 0, sem = NULL\<rparr>"
  have ne: "emCircularIsEmpty ?p (Some ?b) = Inr CB_false"
    by (simp add: emCircularIsEmpty_def emCircularPort_EnterCritical_def no_lock_port_def)
  from NbElems_guard_never_fires [of ?b ?p ?b] ne show ?thesis
    by simp
qed

section \<open>Creation\<close>

text \<open>What \<open>emCircularInit\<close> does reject: bad arguments, and a missing semaphore.\<close>

lemma Init_rejects_arguments:
  "maxElems' < 2 \<or> elemSize' < 1 \<Longrightarrow> emCircularInit p maxElems' elemSize' nm = Inr None"
  by (auto simp: emCircularInit_def)

lemma Init_rejects_missing_semaphore:
  assumes "CIRCULAR_USE_LOCK_MECHANISM p" "osSemaphoreNew p = NULL" "malloc_CBuffer p \<noteq> NULL"
  shows "emCircularInit p maxElems' elemSize' nm = Inr None"
  using assms by (simp add: emCircularInit_def Let_def emCircularPort_InitBynSem_def)

text \<open>
  C7. The claim is that \<open>emCircularInit\<close> returns the null handle in every failure
  case, a failed memory allocation among them. With capacity 2 and element size 1
  and an allocator that has no memory for the data area (it answers \<open>NULL\<close>),
  \<open>emCircularInit\<close> returns a handle that is not null, to a structure whose
  \<open>startBuffer\<close> is \<open>NULL\<close>; and when the allocation of the structure itself
  fails, it does not return at all but writes through the null pointer.
\<close>

theorem Init_ignores_allocation_failure:
  "emCircularInit (no_lock_port 256 NULL) 2 1 None
     = Inr (Some \<lparr>tailInd = 0, headInd = 0, startBuffer = NULL, elemSize = 1, maxElems = 2,
                  NbElems = 0, sem = NULL\<rparr>)
   \<and> emCircularInit (no_lock_port NULL 4096) 2 1 None = Inl NullDereference"
  by (simp add: emCircularInit_def no_lock_port_def emCircularPort_InitBynSem_def)

text \<open>
  A buffer just created, with the lock granted, reports empty and not full, and
  \<open>emCircularGetRemainingSpace\<close> returns the whole capacity for it.
\<close>

lemma fresh_buffer_general:
  assumes init: "emCircularInit p C es nm = Inr (Some b0)"
    and lock: "emCircularPort_EnterCritical p (sem b0) = 0"
  shows "emCircularIsEmpty p (Some b0) = Inr CB_true"
    and "emCircularIsFull p (Some b0) = Inr CB_false"
    and "emCircularGetRemainingSpace p (Some b0) = C"
proof -
  note i = cb_inv_Init [OF init] and v = Init_Some [OF init]
  have f: "headInd b0 = 0" "tailInd b0 = 0" "NbElems b0 = 0" "maxElems b0 = C"
    by (simp_all add: v(1))
  show "emCircularIsEmpty p (Some b0) = Inr CB_true"
    using lock by (simp add: emCircularIsEmpty_def f)
  have "unat (NbElems b0) + 1 \<noteq> unat (maxElems b0)"
    using v(2) by (simp add: f word_le_nat_alt)
  then have "(headInd b0 + 1) mod maxElems b0 \<noteq> tailInd b0"
    by (simp add: full_iff_no_room [OF i(1)])
  moreover have "maxElems b0 \<noteq> 0" using v(2) f by auto
  ultimately show "emCircularIsFull p (Some b0) = Inr CB_false"
    using lock by (simp add: IsFull_false_iff)
  show "emCircularGetRemainingSpace p (Some b0) = C"
    using GetRemainingSpace_cb_inv(1) [OF i(1) lock] by (simp add: f)
qed

text \<open>
  C3. The claim is that a fresh buffer reports empty, not full, and a remaining
  capacity of \<open>capacity - 1\<close>. A fresh buffer of capacity 4 does report empty and
  not full, but \<open>emCircularGetRemainingSpace\<close> returns 4, not 3.
\<close>

theorem fresh_buffer_reports:
  "emCircularInit (no_lock_port 256 4096) 4 4 None
     = Inr (Some \<lparr>tailInd = 0, headInd = 0, startBuffer = 4096, elemSize = 4, maxElems = 4,
                  NbElems = 0, sem = NULL\<rparr>)
   \<and> emCircularIsEmpty (no_lock_port 256 4096)
       (Some \<lparr>tailInd = 0, headInd = 0, startBuffer = 4096, elemSize = 4, maxElems = 4,
              NbElems = 0, sem = NULL\<rparr>) = Inr CB_true
   \<and> emCircularIsFull (no_lock_port 256 4096)
       (Some \<lparr>tailInd = 0, headInd = 0, startBuffer = 4096, elemSize = 4, maxElems = 4,
              NbElems = 0, sem = NULL\<rparr>) = Inr CB_false
   \<and> emCircularGetRemainingSpace (no_lock_port 256 4096)
       (Some \<lparr>tailInd = 0, headInd = 0, startBuffer = 4096, elemSize = 4, maxElems = 4,
              NbElems = 0, sem = NULL\<rparr>) = 4"
  by (simp add: emCircularInit_def emCircularIsEmpty_def emCircularIsFull_def
      emCircularGetRemainingSpace_def emCircularPort_EnterCritical_def
      emCircularPort_InitBynSem_def no_lock_port_def)

section \<open>Remaining space\<close>

text \<open>
  Under the ring discipline, one acquisition fewer than \<open>emCircularGetRemainingSpace\<close>
  announces already fills the buffer.
\<close>

lemma full_after_remaining_minus_one:
  assumes inv: "cb_inv b" and lock: "emCircularPort_EnterCritical p (sem b) = 0"
  shows "\<exists>tr b'. calls p (replicate (unat (emCircularGetRemainingSpace p (Some b)) - 1) GetHead)
                   (Some b) = Inr (tr, Some b') \<and>
                 emCircularIsFull p (Some b') = Inr CB_true \<and>
                 emCircularGetHead p (Some b') = Inr (NULL, Some b')"
proof -
  let ?k = "unat (emCircularGetRemainingSpace p (Some b)) - 1"
  have k: "?k = unat (maxElems b) - unat (NbElems b) - 1"
    using GetRemainingSpace_cb_inv(2) [OF inv lock] by simp
  have lt: "unat (NbElems b) < unat (maxElems b)" using inv by (simp add: cb_inv_nat)
  then have room: "unat (NbElems b) + ?k < unat (maxElems b)" unfolding k by simp
  from calls_fill [OF inv lock room] obtain b' where
    r: "calls p (replicate ?k GetHead) (Some b)
          = Inr (map (\<lambda>i. (GetHead, slot_at b ((unat (headInd b) + i) mod unat (maxElems b))))
                   [0..<?k], Some b')"
       "cb_inv b'" "same_layout b b'" "unat (NbElems b') = unat (NbElems b) + ?k" by blast
  have lay: "maxElems b' = maxElems b" "sem b' = sem b" using r(3) by (simp_all add: same_layout_def)
  have "unat (NbElems b') + 1 = unat (maxElems b')" using r(4) lt unfolding k lay by simp
  then have "(headInd b' + 1) mod maxElems b' = tailInd b'"
    by (simp add: full_iff_no_room [OF r(2)])
  moreover have "maxElems b' \<noteq> 0" using lt lay by auto
  ultimately have full: "emCircularIsFull p (Some b') = Inr CB_true"
    using lock by (simp add: emCircularIsFull_def lay)
  then have "emCircularGetHead p (Some b') = Inr (NULL, Some b')"
    by (intro GetHead_refused) simp
  with r(1) full show ?thesis by blast
qed

text \<open>
  C4. The claim is that \<open>emCircularGetRemainingSpace\<close> returns \<open>capacity - count\<close>
  and that this is the number of further producer acquisitions that succeed before
  the buffer reports full. On a fresh buffer of capacity 4 it returns \<open>4 - 0 = 4\<close>,
  yet of four further calls of \<open>emCircularGetHead\<close> only three are granted a slot:
  the buffer reports full after the third and the fourth returns \<open>NULL\<close>.
\<close>

theorem remaining_space_counts_one_too_many:
  "emCircularGetRemainingSpace (no_lock_port 256 4096)
     (Some \<lparr>tailInd = 0, headInd = 0, startBuffer = 4096, elemSize = 4, maxElems = 4,
            NbElems = 0, sem = NULL\<rparr>) = 4
   \<and> calls (no_lock_port 256 4096) [GetHead, GetHead, GetHead]
       (Some \<lparr>tailInd = 0, headInd = 0, startBuffer = 4096, elemSize = 4, maxElems = 4,
              NbElems = 0, sem = NULL\<rparr>)
     = Inr ([(GetHead, 4096), (GetHead, 4100), (GetHead, 4104)],
            Some \<lparr>tailInd = 0, headInd = 3, startBuffer = 4096, elemSize = 4, maxElems = 4,
                  NbElems = 3, sem = NULL\<rparr>)
   \<and> emCircularIsFull (no_lock_port 256 4096)
       (Some \<lparr>tailInd = 0, headInd = 3, startBuffer = 4096, elemSize = 4, maxElems = 4,
              NbElems = 3, sem = NULL\<rparr>) = Inr CB_true
   \<and> emCircularGetHead (no_lock_port 256 4096)
       (Some \<lparr>tailInd = 0, headInd = 3, startBuffer = 4096, elemSize = 4, maxElems = 4,
              NbElems = 3, sem = NULL\<rparr>)
     = Inr (NULL, Some \<lparr>tailInd = 0, headInd = 3, startBuffer = 4096, elemSize = 4,
                        maxElems = 4, NbElems = 3, sem = NULL\<rparr>)
   \<and> emCircularGetRemainingSpace (no_lock_port 256 4096)
       (Some \<lparr>tailInd = 0, headInd = 3, startBuffer = 4096, elemSize = 4, maxElems = 4,
              NbElems = 3, sem = NULL\<rparr>) = 1"
  by (simp add: emCircularGetRemainingSpace_def emCircularGetHead_def emCircularIsFull_def
      emCircularPort_EnterCritical_def no_lock_port_def Let_def)

section \<open>Sequences of acquisitions\<close>

text \<open>
  C10. In every state reached from a successful \<open>emCircularInit\<close> by any sequence of
  \<open>emCircularGetHead\<close> and \<open>emCircularGetTail\<close> calls by one caller (each such
  sequence runs without error and keeps the handle), the capacity is the one given
  at creation, \<open>headInd\<close> and \<open>tailInd\<close> are below it, \<open>NbElems\<close> is at most
  \<open>capacity - 1\<close>, and \<open>NbElems\<close> equals \<open>(headInd - tailInd) mod capacity\<close>.
\<close>

theorem reachable_invariant:
  assumes "emCircularInit p C es nm = Inr (Some b0)"
  shows "\<exists>tr b. calls p cs (Some b0) = Inr (tr, Some b) \<and>
           maxElems b = C \<and> headInd b < maxElems b \<and> tailInd b < maxElems b \<and>
           NbElems b \<le> maxElems b - 1 \<and>
           uint (NbElems b) = (uint (headInd b) - uint (tailInd b)) mod uint (maxElems b)"
proof -
  note i = cb_inv_Init [OF assms]
  from calls_fifo [OF i(1), of p cs] obtain tr b where
    r: "calls p cs (Some b0) = Inr (tr, Some b)" "cb_inv b" "same_layout b0 b" by blast
  have "maxElems b = C" using r(3) i(3) by (simp add: same_layout_def)
  then show ?thesis using r(1,2) by (auto simp: cb_inv_def)
qed

theorem reachable_invariant_witness:
  "emCircularInit (no_lock_port 256 4096) 4 4 None
     = Inr (Some \<lparr>tailInd = 0, headInd = 0, startBuffer = 4096, elemSize = 4, maxElems = 4,
                  NbElems = 0, sem = NULL\<rparr>)
   \<and> (\<exists>tr b. calls (no_lock_port 256 4096) [GetHead, GetHead, GetTail, GetHead, GetHead]
               (Some \<lparr>tailInd = 0, headInd = 0, startBuffer = 4096, elemSize = 4,
                      maxElems = 4, NbElems = 0, sem = NULL\<rparr>) = Inr (tr, Some b) \<and>
             maxElems b = 4 \<and> headInd b < maxElems b \<and> tailInd b < maxElems b \<and>
             NbElems b \<le> maxElems b - 1 \<and>
             uint (NbElems b) = (uint (headInd b) - uint (tailInd b)) mod uint (maxElems b))"
proof -
  let ?p = "no_lock_port 256 4096"
  let ?b0 = "\<lparr>tailInd = 0, headInd = 0, startBuffer = 4096, elemSize = 4, maxElems = 4,
              NbElems = 0, sem = NULL\<rparr>"
  have init: "emCircularInit ?p 4 4 None = Inr (Some ?b0)"
    by (simp add: emCircularInit_def no_lock_port_def emCircularPort_InitBynSem_def)
  from reachable_invariant [OF init, of "[GetHead, GetHead, GetTail, GetHead, GetHead]"] init
  show ?thesis by blast
qed

text \<open>
  C2. After a successful \<open>emCircularInit\<close>, in every sequence of producer and consumer
  acquisitions by one caller, the K-th consumer acquisition that is granted a slot
  (returns a pointer other than \<open>NULL\<close>) returns the very pointer that the K-th
  granted producer acquisition returned. Moreover, with the lock granted and a
  sequence in which producer and consumer never overrun each other (which includes
  N productions, \<open>N \<le> capacity - 1\<close>, each followed at some point by its
  consumption), no call is refused: the K-th producer acquisition and the K-th
  consumer acquisition both return the address of slot \<open>K mod capacity\<close>, counting
  from 0, so every consumer acquisition of the sequence returns the pointer of the
  producer acquisition of the same rank.
\<close>

theorem fifo_addresses:
  assumes init: "emCircularInit p C es nm = Inr (Some b0)"
  shows "\<exists>tr buffer. calls p cs (Some b0) = Inr (tr, buffer) \<and>
           (\<forall>K < length (granted GetTail tr).
              K < length (granted GetHead tr) \<and> granted GetTail tr ! K = granted GetHead tr ! K) \<and>
           (emCircularPort_EnterCritical p (sem b0) = 0 \<and> paced (unat C) 0 cs \<longrightarrow>
              returned GetHead tr
                = map (\<lambda>k. startBuffer b0 + of_nat (k mod unat C) * es) [0..<count_list cs GetHead] \<and>
              returned GetTail tr
                = map (\<lambda>k. startBuffer b0 + of_nat (k mod unat C) * es) [0..<count_list cs GetTail] \<and>
              (\<forall>K < count_list cs GetTail.
                 K < count_list cs GetHead \<and> returned GetTail tr ! K = returned GetHead tr ! K))"
proof -
  note i = cb_inv_Init [OF init] and s = Init_slot_at [OF init]
  from calls_fifo [OF i(1), of p cs] obtain tr b where
    r: "calls p cs (Some b0) = Inr (tr, Some b)"
    "filter (\<lambda>r. r \<noteq> NULL) (pending b0) @ granted GetHead tr
       = granted GetTail tr @ filter (\<lambda>r. r \<noteq> NULL) (pending b)" by blast
  from r(2) have eq: "granted GetHead tr = granted GetTail tr @ filter (\<lambda>r. r \<noteq> NULL) (pending b)"
    by (simp add: i(2))
  have grants: "\<forall>K < length (granted GetTail tr).
          K < length (granted GetHead tr) \<and> granted GetTail tr ! K = granted GetHead tr ! K"
    by (subst (1 2) eq) (simp add: nth_append)
  have exact: "returned GetHead tr
                = map (\<lambda>k. startBuffer b0 + of_nat (k mod unat C) * es) [0..<count_list cs GetHead] \<and>
              returned GetTail tr
                = map (\<lambda>k. startBuffer b0 + of_nat (k mod unat C) * es) [0..<count_list cs GetTail] \<and>
              (\<forall>K < count_list cs GetTail.
                 K < count_list cs GetHead \<and> returned GetTail tr ! K = returned GetHead tr ! K)"
    if lock: "emCircularPort_EnterCritical p (sem b0) = 0" and pace: "paced (unat C) 0 cs"
  proof -
    have pace0: "paced (unat (maxElems b0)) (unat (NbElems b0)) cs"
      using pace by (simp add: s)
    from calls_paced [OF i(1) lock pace0] r(1)
    have h: "returned GetHead tr
               = map (\<lambda>k. startBuffer b0 + of_nat (k mod unat C) * es) [0..<count_list cs GetHead]"
      and t: "returned GetTail tr
               = map (\<lambda>k. startBuffer b0 + of_nat (k mod unat C) * es) [0..<count_list cs GetTail]"
      by (simp_all add: s)
    have le: "count_list cs GetTail \<le> count_list cs GetHead"
      using paced_counts [OF pace] by simp
    have "\<forall>K < count_list cs GetTail.
            K < count_list cs GetHead \<and> returned GetTail tr ! K = returned GetHead tr ! K"
      unfolding h t using le by simp
    with h t show ?thesis by blast
  qed
  from r(1) grants exact show ?thesis by blast
qed

theorem fifo_addresses_witness:
  "emCircularInit (no_lock_port 256 4096) 4 4 None
     = Inr (Some \<lparr>tailInd = 0, headInd = 0, startBuffer = 4096, elemSize = 4, maxElems = 4,
                  NbElems = 0, sem = NULL\<rparr>)
   \<and> emCircularPort_EnterCritical (no_lock_port 256 4096) NULL = 0
   \<and> paced 4 0 [GetHead, GetHead, GetHead, GetTail, GetTail, GetHead, GetHead, GetTail,
                 GetTail, GetTail]
   \<and> (\<exists>tr buffer.
         calls (no_lock_port 256 4096)
           [GetHead, GetHead, GetHead, GetTail, GetTail, GetHead, GetHead, GetTail, GetTail,
            GetTail]
           (Some \<lparr>tailInd = 0, headInd = 0, startBuffer = 4096, elemSize = 4, maxElems = 4,
                  NbElems = 0, sem = NULL\<rparr>) = Inr (tr, buffer) \<and>
         granted GetHead tr = [4096, 4100, 4104, 4108, 4096] \<and>
         granted GetTail tr = [4096, 4100, 4104, 4108, 4096] \<and>
         returned GetHead tr = [4096, 4100, 4104, 4108, 4096] \<and>
         returned GetTail tr = [4096, 4100, 4104, 4108, 4096] \<and>
         (\<forall>K < 5. returned GetTail tr ! K = returned GetHead tr ! K))"
proof -
  let ?p = "no_lock_port 256 4096"
  let ?b0 = "\<lparr>tailInd = 0, headInd = 0, startBuffer = 4096, elemSize = 4, maxElems = 4,
              NbElems = 0, sem = NULL\<rparr>"
  let ?cs = "[GetHead, GetHead, GetHead, GetTail, GetTail, GetHead, GetHead, GetTail, GetTail,
              GetTail]"
  have init: "emCircularInit ?p 4 4 None = Inr (Some ?b0)"
    by (simp add: emCircularInit_def no_lock_port_def emCircularPort_InitBynSem_def)
  have lock: "emCircularPort_EnterCritical ?p NULL = 0"
    by (simp add: emCircularPort_EnterCritical_def no_lock_port_def)
  have pace: "paced 4 0 ?cs"
    by simp
  have run: "calls ?p ?cs (Some ?b0)
      = Inr ([(GetHead, 4096), (GetHead, 4100), (GetHead, 4104), (GetTail, 4096),
              (GetTail, 4100), (GetHead, 4108), (GetHead, 4096), (GetTail, 4104),
              (GetTail, 4108), (GetTail, 4096)],
             Some \<lparr>tailInd = 1, headInd = 1, startBuffer = 4096, elemSize = 4, maxElems = 4,
                   NbElems = 0, sem = NULL\<rparr>)"
    by (simp add: emCircularGetHead_def emCircularGetTail_def emCircularIsFull_def
        emCircularIsEmpty_def emCircularPort_EnterCritical_def no_lock_port_def Let_def
        NbElems_negative_def)
  from fifo_addresses [OF init, of ?cs] obtain tr buffer where
    r: "calls ?p ?cs (Some ?b0) = Inr (tr, buffer)"
       "emCircularPort_EnterCritical ?p (sem ?b0) = 0 \<and> paced (unat (4 :: 32 word)) 0 ?cs \<longrightarrow>
          (\<forall>K < count_list ?cs GetTail.
             K < count_list ?cs GetHead \<and> returned GetTail tr ! K = returned GetHead tr ! K)"
    by blast
  have tr: "tr = [(GetHead, 4096), (GetHead, 4100), (GetHead, 4104), (GetTail, 4096),
              (GetTail, 4100), (GetHead, 4108), (GetHead, 4096), (GetTail, 4104),
              (GetTail, 4108), (GetTail, 4096)]"
    using r(1) run by simp
  have k: "\<forall>K < 5. returned GetTail tr ! K = returned GetHead tr ! K"
    using r(2) lock pace by simp
  have g: "granted GetHead tr = [4096, 4100, 4104, 4108, 4096]"
    "granted GetTail tr = [4096, 4100, 4104, 4108, 4096]"
    "returned GetHead tr = [4096, 4100, 4104, 4108, 4096]"
    "returned GetTail tr = [4096, 4100, 4104, 4108, 4096]"
    unfolding tr by (simp_all add: granted_def returned_def)
  from init lock pace r(1) g k show ?thesis by blast
qed

text \<open>
  Filling a fresh buffer, with the lock granted: the first \<open>C - 1\<close> calls of
  \<open>emCircularGetHead\<close> return the addresses of slots \<open>0, \<dots>, C - 2\<close>; after them
  \<open>emCircularIsFull\<close> answers \<open>CB_true\<close> and the next call of
  \<open>emCircularGetHead\<close> is refused.
\<close>

lemma fresh_buffer_fills:
  assumes init: "emCircularInit p C es nm = Inr (Some b0)"
    and lock: "emCircularPort_EnterCritical p (sem b0) = 0"
  shows "\<exists>tr b. calls p (replicate (unat C - 1) GetHead) (Some b0) = Inr (tr, Some b) \<and>
           map snd tr = map (\<lambda>i. startBuffer b0 + of_nat i * es) [0..<unat C - 1] \<and>
           emCircularIsFull p (Some b) = Inr CB_true \<and>
           emCircularGetHead p (Some b) = Inr (NULL, Some b)"
proof -
  note i = cb_inv_Init [OF init] and v = Init_Some [OF init]
  have C2: "2 \<le> unat C" using v(2) by (simp add: word_le_nat_alt)
  have b0: "unat (headInd b0) = 0" "unat (NbElems b0) = 0" "maxElems b0 = C" "elemSize b0 = es"
    by (simp_all add: v(1))
  have room: "unat (NbElems b0) + (unat C - 1) < unat (maxElems b0)"
    using C2 by (simp add: b0)
  from calls_fill [OF i(1) lock room] obtain b where
    r: "calls p (replicate (unat C - 1) GetHead) (Some b0)
          = Inr (map (\<lambda>i. (GetHead, slot_at b0 ((unat (headInd b0) + i) mod unat (maxElems b0))))
                   [0..<unat C - 1], Some b)"
       "cb_inv b" "same_layout b0 b"
       "unat (NbElems b) = unat (NbElems b0) + (unat C - 1)" by blast
  let ?tr = "map (\<lambda>i. (GetHead, slot_at b0 ((unat (headInd b0) + i) mod unat (maxElems b0))))
               [0..<unat C - 1]"
  have idx: "map snd ?tr = map (\<lambda>i. startBuffer b0 + of_nat i * es) [0..<unat C - 1]"
    by (simp add: b0 comp_def slot_at_def)
  have lay: "maxElems b = C" "sem b = sem b0" using r(3) by (simp_all add: same_layout_def b0)
  have "unat (NbElems b) + 1 = unat (maxElems b)" using r(4) C2 by (simp add: b0 lay)
  then have "(headInd b + 1) mod maxElems b = tailInd b"
    by (simp add: full_iff_no_room [OF r(2)])
  moreover have "maxElems b \<noteq> 0" using C2 lay by auto
  ultimately have full: "emCircularIsFull p (Some b) = Inr CB_true"
    using lock by (simp add: emCircularIsFull_def lay)
  then have "emCircularGetHead p (Some b) = Inr (NULL, Some b)"
    by (intro GetHead_refused) simp
  with r(1) idx full show ?thesis by blast
qed

text \<open>
  Whether those addresses are null is another matter. They are not when the data
  area is not null and its \<open>maxElems * elemSize\<close> bytes end inside the address space
  (\<open>slot_at_not_null\<close>). But \<open>emCircularInit\<close> hands out a buffer without either:
  it does not test the allocator's answer, and it does not test whether
  \<open>maxElems * elemSize\<close> wraps. With capacity 16 and element size \<open>2^28 + 16\<close> the
  requested size wraps to 256 bytes, and the ninth slot address wraps to \<open>NULL\<close>.
\<close>

lemma slot_null_when_size_wraps:
  "emCircularInit (no_lock_port 256 2147483520) 16 268435472 None
     = Inr (Some \<lparr>tailInd = 0, headInd = 0, startBuffer = 2147483520, elemSize = 268435472,
                  maxElems = 16, NbElems = 0, sem = NULL\<rparr>)
   \<and> (16 :: 32 word) * 268435472 = 256
   \<and> emCircularGetHead (no_lock_port 256 2147483520)
       (Some \<lparr>tailInd = 0, headInd = 8, startBuffer = 2147483520, elemSize = 268435472,
              maxElems = 16, NbElems = 8, sem = NULL\<rparr>)
     = Inr (NULL, Some \<lparr>tailInd = 0, headInd = 9, startBuffer = 2147483520,
                        elemSize = 268435472, maxElems = 16, NbElems = 9, sem = NULL\<rparr>)"
  by (simp add: emCircularInit_def emCircularGetHead_def emCircularIsFull_def
      emCircularPort_EnterCritical_def emCircularPort_InitBynSem_def no_lock_port_def Let_def)

text \<open>
  C1. The claim is that on a fresh buffer of capacity \<open>C\<close> the first \<open>C - 1\<close> calls
  of \<open>emCircularGetHead\<close> all return a pointer that is not null, that the buffer
  then reports full, and that the next call returns \<open>NULL\<close>. With capacity 2 and
  element size 1 and an allocator that has no memory for the data area,
  \<open>emCircularInit\<close> still returns a buffer; the first call of \<open>emCircularGetHead\<close>
  on it advances the head index and the counter, after which the buffer reports
  full, but the pointer it returns is \<open>NULL\<close>.
\<close>

theorem first_slot_null_after_failed_allocation:
  "emCircularInit (no_lock_port 256 NULL) 2 1 None
     = Inr (Some \<lparr>tailInd = 0, headInd = 0, startBuffer = NULL, elemSize = 1, maxElems = 2,
                  NbElems = 0, sem = NULL\<rparr>)
   \<and> emCircularGetHead (no_lock_port 256 NULL)
       (Some \<lparr>tailInd = 0, headInd = 0, startBuffer = NULL, elemSize = 1, maxElems = 2,
              NbElems = 0, sem = NULL\<rparr>)
     = Inr (NULL, Some \<lparr>tailInd = 0, headInd = 1, startBuffer = NULL, elemSize = 1,
                        maxElems = 2, NbElems = 1, sem = NULL\<rparr>)
   \<and> emCircularIsFull (no_lock_port 256 NULL)
       (Some \<lparr>tailInd = 0, headInd = 1, startBuffer = NULL, elemSize = 1, maxElems = 2,
              NbElems = 1, sem = NULL\<rparr>) = Inr CB_true"
  by (simp add: emCircularInit_def emCircularGetHead_def emCircularIsFull_def
      emCircularPort_EnterCritical_def emCircularPort_InitBynSem_def no_lock_port_def Let_def)

end
